theory Spec2Isabelle
  imports Main "HOL-Library.Word"
begin

unbundle bit_operations_syntax

section \<open>The cache simulator of main.cpp\<close>

text \<open>
  A shallow embedding of the class \<open>CacheSimulator\<close>, in the arithmetic of the
  compiled program.

  An \<open>unsigned int\<close> is a 32-bit word, so \<open>++global_counter\<close> wraps around.
  An \<open>int\<close> statistic is a 32-bit word read as two's complement (\<open>sint\<close>):
  C++ leaves signed overflow undefined, and the additions and the multiplication
  the compiled program executes wrap around, so \<open>total_cycles += 100 * (block_size / 4)\<close>
  can leave a negative total. The sizes handed to the constructor are non-negative
  \<open>int\<close>s and held as \<open>nat\<close>.

  Reading a \<open>std::vector\<close> out of range is undefined behaviour: every
  operation returns an \<open>option\<close>, and \<open>None\<close> stands for such a read.
\<close>

type_synonym u32 = "32 word"

text \<open>An \<open>int\<close>: the same 32 bits, read with \<open>sint\<close>.\<close>

type_synonym i32 = "32 word"

subsection \<open>Data\<close>

record CacheBlock =
  valid :: bool
  dirty :: bool
  tag :: u32
  lru_count :: u32

text \<open>The constructor \<open>CacheBlock()\<close>.\<close>

definition CacheBlock_new :: CacheBlock where
  "CacheBlock_new = \<lparr>valid = False, dirty = False, tag = 0, lru_count = 0\<rparr>"

text \<open>A \<open>CacheSet\<close> is its vector of blocks; \<open>CacheSet(associativity)\<close> builds it.\<close>

type_synonym CacheSet = "CacheBlock list"

definition CacheSet_new :: "nat \<Rightarrow> CacheSet" where
  "CacheSet_new associativity = replicate associativity CacheBlock_new"

text \<open>The fields of \<open>CacheSimulator\<close> that are never assigned after the constructor.\<close>

record config =
  num_sets :: nat
  num_blocks_per_set :: nat
  block_size :: nat
  write_allocate :: bool
  write_through :: bool
  lru_eviction :: bool
  set_bits :: nat
  block_bits :: nat
  tag_bits :: int

text \<open>The fields the accesses change.\<close>

record cache =
  sets :: "CacheSet list"
  global_counter :: u32
  total_loads :: i32
  total_stores :: i32
  load_hits :: i32
  load_misses :: i32
  store_hits :: i32
  store_misses :: i32
  total_cycles :: i32

subsection \<open>The constructor\<close>

text \<open>
  \<open>std::log2\<close> of a positive \<open>int\<close>, truncated to \<open>int\<close>: the position of the
  highest set bit. For 0 the program converts minus infinity to \<open>int\<close>, which C++
  leaves undefined: \<open>ilog2 0 = 0\<close> stands for no value of the program. main refuses
  a block size below 4, and the statements about the constructor's state assume at
  least one set and one block per set.
\<close>

fun ilog2 :: "nat \<Rightarrow> nat" where
  "ilog2 n = (if n < 2 then 0 else Suc (ilog2 (n div 2)))"

declare ilog2.simps [simp del]

definition mk_config :: "nat \<Rightarrow> nat \<Rightarrow> nat \<Rightarrow> bool \<Rightarrow> bool \<Rightarrow> bool \<Rightarrow> config" where
  "mk_config nsets blocks_per_set bytes_per_block write_alloc write_thru lru =
     \<lparr>num_sets = nsets, num_blocks_per_set = blocks_per_set, block_size = bytes_per_block,
      write_allocate = write_alloc, write_through = write_thru, lru_eviction = lru,
      set_bits = ilog2 nsets, block_bits = ilog2 bytes_per_block,
      tag_bits = 32 - int (ilog2 nsets) - int (ilog2 bytes_per_block)\<rparr>"

definition empty_cache :: "config \<Rightarrow> cache" where
  "empty_cache cfg =
     \<lparr>sets = replicate (num_sets cfg) (CacheSet_new (num_blocks_per_set cfg)),
      global_counter = 0,
      total_loads = 0, total_stores = 0, load_hits = 0, load_misses = 0,
      store_hits = 0, store_misses = 0, total_cycles = 0\<rparr>"

subsection \<open>Address decoding (processAccess)\<close>

definition set_index_of :: "config \<Rightarrow> u32 \<Rightarrow> u32" where
  "set_index_of cfg address =
     drop_bit (block_bits cfg) address AND word_of_int (push_bit (set_bits cfg) 1 - 1)"

text \<open>
  \<open>address >> (set_bits + block_bits)\<close>. Each of the two widths is the logarithm of
  an \<open>int\<close> and so below 31, but their sum can reach 32 and more, where C++ leaves
  the shift undefined: the shift instruction of the compiled program takes the count
  modulo 32 (at 32 the tag is the whole address), and so does \<open>tag_of\<close>.
\<close>

definition tag_of :: "config \<Rightarrow> u32 \<Rightarrow> u32" where
  "tag_of cfg address = drop_bit ((set_bits cfg + block_bits cfg) mod 32) address"

text \<open>
  Modelled from the spec: the block offset, \<open>address & (2^blockOffsetBits - 1)\<close>.
  The program never computes it (AddressDecoder's third component is unused by the
  engine).
\<close>

definition block_offset_of :: "config \<Rightarrow> u32 \<Rightarrow> u32" where
  "block_offset_of cfg address = address AND word_of_int (push_bit (block_bits cfg) 1 - 1)"

text \<open>Modelled from the spec: the reassembly of an address from its three parts.\<close>

definition reassemble :: "config \<Rightarrow> u32 \<Rightarrow> u32 \<Rightarrow> u32 \<Rightarrow> u32" where
  "reassemble cfg t si off =
     push_bit (set_bits cfg + block_bits cfg) t OR push_bit (block_bits cfg) si OR off"

subsection \<open>The loops over the blocks of a set\<close>

text \<open>
  Each \<open>for (int i = ...; i < num_blocks_per_set; i++)\<close> loop is a recursion over the
  list of indices it visits. The outer \<open>option\<close> is \<open>None\<close> when the loop reads
  \<open>set.blocks[i]\<close> out of range.
\<close>

text \<open>
  The hit scan of processLoad and processStore: \<open>Some (Some i)\<close> for the first slot
  that is valid and holds the tag, \<open>Some None\<close> when the loop runs to its end.
\<close>

fun find_hit :: "CacheSet \<Rightarrow> u32 \<Rightarrow> nat list \<Rightarrow> nat option option" where
  "find_hit bs t [] = Some None"
| "find_hit bs t (i # is) =
     (if i < length bs
      then (if valid (bs ! i) \<and> tag (bs ! i) = t then Some (Some i) else find_hit bs t is)
      else None)"

text \<open>The scan of allocateBlock for the first slot that is not valid.\<close>

fun find_free :: "CacheSet \<Rightarrow> nat list \<Rightarrow> nat option option" where
  "find_free bs [] = Some None"
| "find_free bs (i # is) =
     (if i < length bs
      then (if \<not> valid (bs ! i) then Some (Some i) else find_free bs is)
      else None)"

text \<open>
  The minimum scan of evictBlock, carrying \<open>(min_counter, evict_index)\<close>. The
  comparison is on unsigned values.
\<close>

fun min_scan :: "CacheSet \<Rightarrow> nat list \<Rightarrow> u32 \<times> nat \<Rightarrow> (u32 \<times> nat) option" where
  "min_scan bs [] acc = Some acc"
| "min_scan bs (i # is) (min_counter, evict_index) =
     (if i < length bs
      then (if lru_count (bs ! i) < min_counter
            then min_scan bs is (lru_count (bs ! i), i)
            else min_scan bs is (min_counter, evict_index))
      else None)"

text \<open>
  The choice of \<open>evict_index\<close> in evictBlock. The two branches of
  \<open>if (lru_eviction)\<close> hold the same statements in the source.
\<close>

definition choose_victim :: "config \<Rightarrow> CacheSet \<Rightarrow> nat option" where
  "choose_victim cfg bs =
     (if lru_eviction cfg
      then (if 0 < length bs
            then map_option snd
                   (min_scan bs [1..<num_blocks_per_set cfg] (lru_count (bs ! 0), 0))
            else None)
      else (if 0 < length bs
            then map_option snd
                   (min_scan bs [1..<num_blocks_per_set cfg] (lru_count (bs ! 0), 0))
            else None))"

subsection \<open>Writes to one block\<close>

definition update_block :: "nat \<Rightarrow> nat \<Rightarrow> (CacheBlock \<Rightarrow> CacheBlock) \<Rightarrow> cache \<Rightarrow> cache" where
  "update_block si i f s = s\<lparr>sets := (sets s)[si := (sets s ! si)[i := f (sets s ! si ! i)]]\<rparr>"

text \<open>\<open>set.blocks[i].lru_count = ++global_counter\<close>\<close>

definition touch :: "nat \<Rightarrow> nat \<Rightarrow> cache \<Rightarrow> cache" where
  "touch si i s =
     (let c = global_counter s + 1
      in update_block si i (\<lambda>b. b\<lparr>lru_count := c\<rparr>) (s\<lparr>global_counter := c\<rparr>))"

text \<open>
  The four assignments that end allocateBlock's loop body and evictBlock:
  valid, tag, \<open>lru_count = ++global_counter\<close>, dirty.
\<close>

definition install :: "nat \<Rightarrow> nat \<Rightarrow> u32 \<Rightarrow> cache \<Rightarrow> cache" where
  "install si i t s =
     (let c = global_counter s + 1
      in update_block si i
           (\<lambda>b. b\<lparr>valid := True, tag := t, lru_count := c, dirty := False\<rparr>)
           (s\<lparr>global_counter := c\<rparr>))"

text \<open>\<open>total_cycles += n\<close>, in 32 bits.\<close>

definition add_cycles :: "i32 \<Rightarrow> cache \<Rightarrow> cache" where
  "add_cycles n s = s\<lparr>total_cycles := total_cycles s + n\<rparr>"

text \<open>\<open>100 * (block_size / 4)\<close>: the division is exact on \<open>int\<close>s, the product wraps.\<close>

definition block_transfer_cycles :: "config \<Rightarrow> i32" where
  "block_transfer_cycles cfg = 100 * word_of_nat (block_size cfg div 4)"

subsection \<open>evictBlock, allocateBlock, processLoad, processStore, processAccess\<close>

definition evictBlock :: "config \<Rightarrow> nat \<Rightarrow> u32 \<Rightarrow> cache \<Rightarrow> cache option" where
  "evictBlock cfg si t s =
     (case choose_victim cfg (sets s ! si) of
        None \<Rightarrow> None
      | Some evict_index \<Rightarrow>
          if evict_index < length (sets s ! si)
          then Some (install si evict_index t
                 (if dirty (sets s ! si ! evict_index) \<and> \<not> write_through cfg
                  then add_cycles (block_transfer_cycles cfg) s else s))
          else None)"

definition allocateBlock :: "config \<Rightarrow> nat \<Rightarrow> u32 \<Rightarrow> cache \<Rightarrow> cache option" where
  "allocateBlock cfg si t s =
     (case find_free (sets s ! si) [0..<num_blocks_per_set cfg] of
        None \<Rightarrow> None
      | Some (Some i) \<Rightarrow> Some (install si i t s)
      | Some None \<Rightarrow> evictBlock cfg si t s)"

definition processLoad :: "config \<Rightarrow> nat \<Rightarrow> u32 \<Rightarrow> cache \<Rightarrow> cache option" where
  "processLoad cfg si t s0 =
     (let s = add_cycles 1 (s0\<lparr>total_loads := total_loads s0 + 1\<rparr>)
      in if si < length (sets s)
         then (case find_hit (sets s ! si) t [0..<num_blocks_per_set cfg] of
                 None \<Rightarrow> None
               | Some (Some i) \<Rightarrow> Some (touch si i (s\<lparr>load_hits := load_hits s + 1\<rparr>))
               | Some None \<Rightarrow>
                   allocateBlock cfg si t
                     (add_cycles (block_transfer_cycles cfg)
                        (s\<lparr>load_misses := load_misses s + 1\<rparr>)))
         else None)"

text \<open>
  The loop that follows allocateBlock in processStore: the first valid slot holding
  the tag is made dirty, and the loop ends there.
\<close>

definition mark_dirty :: "config \<Rightarrow> nat \<Rightarrow> u32 \<Rightarrow> cache \<Rightarrow> cache option" where
  "mark_dirty cfg si t s =
     (case find_hit (sets s ! si) t [0..<num_blocks_per_set cfg] of
        None \<Rightarrow> None
      | Some (Some i) \<Rightarrow> Some (update_block si i (\<lambda>b. b\<lparr>dirty := True\<rparr>) s)
      | Some None \<Rightarrow> Some s)"

definition processStore :: "config \<Rightarrow> nat \<Rightarrow> u32 \<Rightarrow> cache \<Rightarrow> cache option" where
  "processStore cfg si t s0 =
     (let s = add_cycles 1 (s0\<lparr>total_stores := total_stores s0 + 1\<rparr>)
      in if si < length (sets s)
         then (case find_hit (sets s ! si) t [0..<num_blocks_per_set cfg] of
                 None \<Rightarrow> None
               | Some (Some i) \<Rightarrow>
                   (let s1 = touch si i (s\<lparr>store_hits := store_hits s + 1\<rparr>)
                    in if \<not> write_through cfg
                       then Some (update_block si i (\<lambda>b. b\<lparr>dirty := True\<rparr>) s1)
                       else Some (add_cycles 100 s1))
               | Some None \<Rightarrow>
                   (let s1 = s\<lparr>store_misses := store_misses s + 1\<rparr>
                    in if write_allocate cfg
                       then (case allocateBlock cfg si t (add_cycles (block_transfer_cycles cfg) s1) of
                               None \<Rightarrow> None
                             | Some s2 \<Rightarrow>
                                 if \<not> write_through cfg
                                 then mark_dirty cfg si t s2
                                 else Some (add_cycles 100 s2))
                       else Some (add_cycles 100 s1)))
         else None)"

definition processAccess :: "config \<Rightarrow> char \<Rightarrow> u32 \<Rightarrow> cache \<Rightarrow> cache option" where
  "processAccess cfg operation address s =
     (let set_index = set_index_of cfg address;
          t = tag_of cfg address
      in if operation = CHR ''l''
         then processLoad cfg (unat set_index) t s
         else processStore cfg (unat set_index) t s)"

text \<open>The loop of main over the records of the trace.\<close>

fun run :: "config \<Rightarrow> cache \<Rightarrow> (char \<times> u32) list \<Rightarrow> cache option" where
  "run cfg s [] = Some s"
| "run cfg s ((operation, address) # rest) =
     (case processAccess cfg operation address s of
        None \<Rightarrow> None
      | Some s' \<Rightarrow> run cfg s' rest)"

subsection \<open>Predicates used in the statements\<close>

text \<open>
  What the constructor establishes and every access keeps: \<open>sets\<close> has
  \<open>num_sets\<close> entries of \<open>num_blocks_per_set\<close> blocks each, there is at least one
  block per set, and every set index the decoder can produce is in range.
\<close>

definition well_formed :: "config \<Rightarrow> cache \<Rightarrow> bool" where
  "well_formed cfg s \<longleftrightarrow>
     length (sets s) = num_sets cfg \<and>
     list_all (\<lambda>bs. length bs = num_blocks_per_set cfg) (sets s) \<and>
     0 < num_blocks_per_set cfg \<and>
     2 ^ set_bits cfg \<le> num_sets cfg"

text \<open>
  The condition of the hit scans, for an address: some block of the address's set is
  valid and holds the address's tag.
\<close>

definition resident :: "config \<Rightarrow> cache \<Rightarrow> u32 \<Rightarrow> bool" where
  "resident cfg s address \<longleftrightarrow>
     list_ex (\<lambda>b. valid b \<and> tag b = tag_of cfg address)
       (sets s ! unat (set_index_of cfg address))"

text \<open>The hits and the misses counted so far, loads and stores together.\<close>

definition hits :: "cache \<Rightarrow> i32" where
  "hits s = load_hits s + store_hits s"

definition misses :: "cache \<Rightarrow> i32" where
  "misses s = load_misses s + store_misses s"



text \<open>The number of valid blocks of a set, and: no two valid blocks hold one tag.\<close>

definition valid_count :: "CacheSet \<Rightarrow> nat" where
  "valid_count bs = length (filter valid bs)"

definition no_dup_tags :: "CacheSet \<Rightarrow> bool" where
  "no_dup_tags bs = distinct (map tag (filter valid bs))"

text \<open>
  What one access does to the counters: \<open>s'\<close> is \<open>s\<close> with \<open>lh\<close> load hits,
  \<open>lm\<close> load misses, \<open>sh\<close> store hits, \<open>sm\<close> store misses and \<open>k\<close> cycles
  added, each addition in 32 bits.
\<close>

definition counted :: "cache \<Rightarrow> cache \<Rightarrow> nat \<Rightarrow> nat \<Rightarrow> nat \<Rightarrow> nat \<Rightarrow> nat \<Rightarrow> bool" where
  "counted s s' lh lm sh sm k \<longleftrightarrow>
     total_loads s' = total_loads s + word_of_nat (lh + lm) \<and>
     total_stores s' = total_stores s + word_of_nat (sh + sm) \<and>
     load_hits s' = load_hits s + word_of_nat lh \<and>
     load_misses s' = load_misses s + word_of_nat lm \<and>
     store_hits s' = store_hits s + word_of_nat sh \<and>
     store_misses s' = store_misses s + word_of_nat sm \<and>
     total_cycles s' = total_cycles s + word_of_nat k"



subsection \<open>States used as examples\<close>

text \<open>One set of two blocks, both valid; slot 0 is dirty and was stamped first.\<close>

definition example_full :: cache where
  "example_full =
     \<lparr>sets = [[\<lparr>valid = True, dirty = True, tag = 0, lru_count = 1\<rparr>,
               \<lparr>valid = True, dirty = False, tag = 1, lru_count = 2\<rparr>]],
      global_counter = 2,
      total_loads = 1, total_stores = 1, load_hits = 0, load_misses = 1,
      store_hits = 0, store_misses = 1, total_cycles = 802\<rparr>"

text \<open>One set of one block of 4 bytes, after the load of \<open>0x40\<close> into the empty cache.\<close>

definition example_after_load :: cache where
  "example_after_load =
     \<lparr>sets = [[\<lparr>valid = True, dirty = False, tag = 0x10, lru_count = 1\<rparr>]],
      global_counter = 1,
      total_loads = 1, total_stores = 0, load_hits = 0, load_misses = 1,
      store_hits = 0, store_misses = 0, total_cycles = 101\<rparr>"

section \<open>Address decoding\<close>

lemma mask_word: "(word_of_int (push_bit n 1 - 1) :: u32) = mask n"
  by (simp add: mask_eq_exp_minus_1 push_bit_eq_mult)

text \<open>
  C5. Splitting a 32-bit address into tag, set index and block offset and putting
  the three parts back together (tag shifted left by both widths, set index by the
  offset width) gives the address again, for every geometry whose two widths sum to
  at most 32.
\<close>

theorem decode_reassemble:
  assumes "set_bits cfg + block_bits cfg \<le> 32"
  shows "reassemble cfg (tag_of cfg a) (set_index_of cfg a) (block_offset_of cfg a) = a"
proof -
  let ?s = "set_bits cfg" and ?b = "block_bits cfg"
  have "bit (push_bit (?s + ?b) (drop_bit ((?s + ?b) mod 32) a) OR
          push_bit ?b (drop_bit ?b a AND mask ?s) OR (a AND mask ?b)) n = bit a n"
    if n: "n < LENGTH(32)" for n
  proof (cases "?s + ?b = 32")
    case True
    then have "n < ?b \<or> n - ?b < ?s" using n by auto
    with True n show ?thesis
      by (cases "n < ?b") (auto simp add: bit_simps)
  next
    case False
    with assms have "(?s + ?b) mod 32 = ?s + ?b" by simp
    with n show ?thesis
      by (cases "n < ?b"; cases "n < ?s + ?b") (auto simp add: bit_simps)
  qed
  then show ?thesis
    unfolding reassemble_def tag_of_def set_index_of_def block_offset_of_def mask_word
    by (intro bit_word_eqI)
qed

lemma ilog2_4: "ilog2 4 = 2"
  by code_simp

lemma ilog2_16: "ilog2 16 = 4"
  by code_simp

theorem decode_reassemble_witness:
  "set_bits (mk_config 4 1 16 True True True) + block_bits (mk_config 4 1 16 True True True) \<le> 32 \<and>
   tag_of (mk_config 4 1 16 True True True) 0x1234ABCD = 0x48D2AF \<and>
   set_index_of (mk_config 4 1 16 True True True) 0x1234ABCD = 0 \<and>
   block_offset_of (mk_config 4 1 16 True True True) 0x1234ABCD = 0xD \<and>
   reassemble (mk_config 4 1 16 True True True) 0x48D2AF 0 0xD = 0x1234ABCD"
proof -
  let ?cfg = "mk_config 4 1 16 True True True"
  have w: "set_bits ?cfg + block_bits ?cfg \<le> 32"
    by (simp add: mk_config_def ilog2_4 ilog2_16)
  have t: "tag_of ?cfg 0x1234ABCD = 0x48D2AF"
    by (simp add: tag_of_def mk_config_def ilog2_4 ilog2_16 drop_bit_eq_div)
  have i: "set_index_of ?cfg 0x1234ABCD = 0"
    by (simp add: set_index_of_def mk_config_def ilog2_4 ilog2_16 drop_bit_eq_div)
  have b: "block_offset_of ?cfg 0x1234ABCD = 0xD"
    by (simp add: block_offset_of_def mk_config_def ilog2_4 ilog2_16)
  from decode_reassemble [OF w, of "0x1234ABCD"] w t i b show ?thesis
    by simp
qed

section \<open>The scenario of three conflicting loads\<close>

text \<open>
  C3. With 4 sets of 1 block of 16 bytes, from the empty cache, the loads of
  \<open>0x00\<close>, \<open>0x40\<close>, \<open>0x00\<close> end with totalLoads = 3, loadHits = 0,
  loadMisses = 3 and totalCycles = 1203, whatever the write and eviction policies.
  Both addresses decode to set 0, \<open>0x00\<close> with tag 0 and \<open>0x40\<close> with tag 1,
  and each load is a miss that puts its block into the one slot of set 0: after the
  first load the slot holds tag 0 and the set has no free slot left, after the
  second it holds tag 1 (the eviction of tag 0), after the third tag 0 again (the
  eviction of tag 1), with the misses counted 1, 2, 3.
\<close>

theorem three_conflicting_loads:
  "map_option (\<lambda>s. (sint (total_loads s), sint (load_hits s), sint (load_misses s),
                     sint (total_cycles s)))
     (run (mk_config 4 1 16 wa wt lru) (empty_cache (mk_config 4 1 16 wa wt lru))
        [(CHR ''l'', 0x00), (CHR ''l'', 0x40), (CHR ''l'', 0x00)])
   = Some (3, 0, 3, 1203) \<and>
   set_index_of (mk_config 4 1 16 wa wt lru) 0x00 = 0 \<and>
   tag_of (mk_config 4 1 16 wa wt lru) 0x00 = 0 \<and>
   set_index_of (mk_config 4 1 16 wa wt lru) 0x40 = 0 \<and>
   tag_of (mk_config 4 1 16 wa wt lru) 0x40 = 1 \<and>
   map_option (\<lambda>s. (sets s ! 0, find_free (sets s ! 0) [0..<1], sint (load_misses s)))
     (run (mk_config 4 1 16 wa wt lru) (empty_cache (mk_config 4 1 16 wa wt lru))
        [(CHR ''l'', 0x00)])
   = Some ([\<lparr>valid = True, dirty = False, tag = 0, lru_count = 1\<rparr>], Some None, 1) \<and>
   map_option (\<lambda>s. (sets s ! 0, find_free (sets s ! 0) [0..<1], sint (load_misses s)))
     (run (mk_config 4 1 16 wa wt lru) (empty_cache (mk_config 4 1 16 wa wt lru))
        [(CHR ''l'', 0x00), (CHR ''l'', 0x40)])
   = Some ([\<lparr>valid = True, dirty = False, tag = 1, lru_count = 2\<rparr>], Some None, 2) \<and>
   map_option (\<lambda>s. (sets s ! 0, find_free (sets s ! 0) [0..<1], sint (load_misses s)))
     (run (mk_config 4 1 16 wa wt lru) (empty_cache (mk_config 4 1 16 wa wt lru))
        [(CHR ''l'', 0x00), (CHR ''l'', 0x40), (CHR ''l'', 0x00)])
   = Some ([\<lparr>valid = True, dirty = False, tag = 0, lru_count = 3\<rparr>], Some None, 3)"
proof -
  have "\<forall>wa wt lru.
   map_option (\<lambda>s. (sint (total_loads s), sint (load_hits s), sint (load_misses s),
                     sint (total_cycles s)))
     (run (mk_config 4 1 16 wa wt lru) (empty_cache (mk_config 4 1 16 wa wt lru))
        [(CHR ''l'', 0x00), (CHR ''l'', 0x40), (CHR ''l'', 0x00)])
   = Some (3, 0, 3, 1203) \<and>
   set_index_of (mk_config 4 1 16 wa wt lru) 0x00 = 0 \<and>
   tag_of (mk_config 4 1 16 wa wt lru) 0x00 = 0 \<and>
   set_index_of (mk_config 4 1 16 wa wt lru) 0x40 = 0 \<and>
   tag_of (mk_config 4 1 16 wa wt lru) 0x40 = 1 \<and>
   map_option (\<lambda>s. (sets s ! 0, find_free (sets s ! 0) [0..<1], sint (load_misses s)))
     (run (mk_config 4 1 16 wa wt lru) (empty_cache (mk_config 4 1 16 wa wt lru))
        [(CHR ''l'', 0x00)])
   = Some ([\<lparr>valid = True, dirty = False, tag = 0, lru_count = 1\<rparr>], Some None, 1) \<and>
   map_option (\<lambda>s. (sets s ! 0, find_free (sets s ! 0) [0..<1], sint (load_misses s)))
     (run (mk_config 4 1 16 wa wt lru) (empty_cache (mk_config 4 1 16 wa wt lru))
        [(CHR ''l'', 0x00), (CHR ''l'', 0x40)])
   = Some ([\<lparr>valid = True, dirty = False, tag = 1, lru_count = 2\<rparr>], Some None, 2) \<and>
   map_option (\<lambda>s. (sets s ! 0, find_free (sets s ! 0) [0..<1], sint (load_misses s)))
     (run (mk_config 4 1 16 wa wt lru) (empty_cache (mk_config 4 1 16 wa wt lru))
        [(CHR ''l'', 0x00), (CHR ''l'', 0x40), (CHR ''l'', 0x00)])
   = Some ([\<lparr>valid = True, dirty = False, tag = 0, lru_count = 3\<rparr>], Some None, 3)"
    by code_simp
  then show ?thesis by blast
qed

section \<open>The constructor and the shape of the cache\<close>

lemma ilog2_le: "0 < n \<Longrightarrow> 2 ^ ilog2 n \<le> n"
proof (induction n rule: ilog2.induct)
  case (1 n)
  show ?case
  proof (cases "n < 2")
    case True
    with 1 show ?thesis by (simp add: ilog2.simps)
  next
    case False
    then have "0 < n div 2" by simp
    with 1 False have "2 ^ ilog2 (n div 2) \<le> n div 2" by simp
    then have "2 * 2 ^ ilog2 (n div 2) \<le> n" by simp
    with False show ?thesis by (simp add: ilog2.simps [of n])
  qed
qed

lemma wf_empty_cache:
  "0 < nsets \<Longrightarrow> 0 < bps \<Longrightarrow>
   well_formed (mk_config nsets bps bytes wa wt lru) (empty_cache (mk_config nsets bps bytes wa wt lru))"
  by (simp add: well_formed_def mk_config_def empty_cache_def CacheSet_new_def ilog2_le list_all_iff)

lemma unat_set_index_lt: "unat (set_index_of cfg a) < 2 ^ set_bits cfg"
proof -
  have "uint (set_index_of cfg a) < 2 ^ set_bits cfg"
    unfolding set_index_of_def mask_word by (rule and_mask_lt_2p)
  then have "int (unat (set_index_of cfg a)) < int (2 ^ set_bits cfg)"
    by simp
  then show ?thesis
    by (simp only: of_nat_less_iff)
qed

lemma wf_set_index: "well_formed cfg s \<Longrightarrow> unat (set_index_of cfg a) < length (sets s)"
  using unat_set_index_lt [of cfg a] by (simp add: well_formed_def)

lemma wf_set_length: "well_formed cfg s \<Longrightarrow> si < length (sets s) \<Longrightarrow> length (sets s ! si) = num_blocks_per_set cfg"
  by (simp add: well_formed_def list_all_length)

section \<open>The loops\<close>

lemma find_hit_total: "\<forall>i\<in>set is. i < length bs \<Longrightarrow> find_hit bs t is \<noteq> None"
  by (induction "is") auto

lemma find_hit_SomeD:
  "find_hit bs t is = Some (Some i) \<Longrightarrow> i \<in> set is \<and> i < length bs \<and> valid (bs ! i) \<and> tag (bs ! i) = t"
  by (induction "is") (auto split: if_splits)

lemma find_hit_NoneD:
  "find_hit bs t is = Some None \<Longrightarrow> j \<in> set is \<Longrightarrow> \<not> (valid (bs ! j) \<and> tag (bs ! j) = t)"
  by (induction "is") (auto split: if_splits)

lemma find_free_total: "\<forall>i\<in>set is. i < length bs \<Longrightarrow> find_free bs is \<noteq> None"
  by (induction "is") auto

lemma find_free_SomeD:
  "find_free bs is = Some (Some i) \<Longrightarrow> i \<in> set is \<and> i < length bs \<and> \<not> valid (bs ! i)"
  by (induction "is") (auto split: if_splits)

lemma find_free_NoneD:
  "find_free bs is = Some None \<Longrightarrow> j \<in> set is \<Longrightarrow> valid (bs ! j)"
  by (induction "is") (auto split: if_splits)

lemma min_scan_total:
  "\<forall>i\<in>set is. i < length bs \<Longrightarrow> \<exists>m v. min_scan bs is (m0, v0) = Some (m, v) \<and> (v = v0 \<or> v \<in> set is)"
proof (induction "is" arbitrary: m0 v0)
  case Nil
  then show ?case by simp
next
  case (Cons i "is")
  then show ?case by (cases "lru_count (bs ! i) < m0") (simp_all, metis+)
qed

section \<open>The fields after a write to one block\<close>

lemma add_cycles_simps [simp]:
  "sets (add_cycles n s) = sets s"
  "global_counter (add_cycles n s) = global_counter s"
  "total_loads (add_cycles n s) = total_loads s"
  "total_stores (add_cycles n s) = total_stores s"
  "load_hits (add_cycles n s) = load_hits s"
  "load_misses (add_cycles n s) = load_misses s"
  "store_hits (add_cycles n s) = store_hits s"
  "store_misses (add_cycles n s) = store_misses s"
  "total_cycles (add_cycles n s) = total_cycles s + n"
  by (simp_all add: add_cycles_def)

lemma update_block_simps [simp]:
  "sets (update_block si i f s) = (sets s)[si := (sets s ! si)[i := f (sets s ! si ! i)]]"
  "global_counter (update_block si i f s) = global_counter s"
  "total_loads (update_block si i f s) = total_loads s"
  "total_stores (update_block si i f s) = total_stores s"
  "load_hits (update_block si i f s) = load_hits s"
  "load_misses (update_block si i f s) = load_misses s"
  "store_hits (update_block si i f s) = store_hits s"
  "store_misses (update_block si i f s) = store_misses s"
  "total_cycles (update_block si i f s) = total_cycles s"
  by (simp_all add: update_block_def)

lemma touch_simps [simp]:
  "sets (touch si i s) =
     (sets s)[si := (sets s ! si)[i := (sets s ! si ! i)\<lparr>lru_count := global_counter s + 1\<rparr>]]"
  "global_counter (touch si i s) = global_counter s + 1"
  "total_loads (touch si i s) = total_loads s"
  "total_stores (touch si i s) = total_stores s"
  "load_hits (touch si i s) = load_hits s"
  "load_misses (touch si i s) = load_misses s"
  "store_hits (touch si i s) = store_hits s"
  "store_misses (touch si i s) = store_misses s"
  "total_cycles (touch si i s) = total_cycles s"
  by (simp_all add: touch_def Let_def)

lemma install_simps [simp]:
  "sets (install si i t s) =
     (sets s)[si := (sets s ! si)[i := (sets s ! si ! i)
        \<lparr>valid := True, tag := t, lru_count := global_counter s + 1, dirty := False\<rparr>]]"
  "global_counter (install si i t s) = global_counter s + 1"
  "total_loads (install si i t s) = total_loads s"
  "total_stores (install si i t s) = total_stores s"
  "load_hits (install si i t s) = load_hits s"
  "load_misses (install si i t s) = load_misses s"
  "store_hits (install si i t s) = store_hits s"
  "store_misses (install si i t s) = store_misses s"
  "total_cycles (install si i t s) = total_cycles s"
  by (simp_all add: install_def Let_def)

section \<open>The branches of allocateBlock and processAccess\<close>

lemma choose_victim_total:
  assumes "length bs = num_blocks_per_set cfg" "0 < num_blocks_per_set cfg"
  shows "\<exists>v. choose_victim cfg bs = Some v \<and> v < num_blocks_per_set cfg"
proof -
  have "\<forall>i\<in>set [1..<num_blocks_per_set cfg]. i < length bs"
    using assms by simp
  from min_scan_total [OF this, of "lru_count (bs ! 0)" 0]
  obtain m v where "min_scan bs [1..<num_blocks_per_set cfg] (lru_count (bs ! 0), 0) = Some (m, v)"
    and "v = 0 \<or> v \<in> set [1..<num_blocks_per_set cfg]" by blast
  with assms show ?thesis by (auto simp add: choose_victim_def)
qed

lemma allocateBlock_cases:
  assumes "length (sets s ! si) = num_blocks_per_set cfg" "0 < num_blocks_per_set cfg"
  obtains (free) i where "i < num_blocks_per_set cfg" "\<not> valid (sets s ! si ! i)"
      "allocateBlock cfg si t s = Some (install si i t s)"
  | (evict) v where "v < num_blocks_per_set cfg"
      "\<forall>j<num_blocks_per_set cfg. valid (sets s ! si ! j)"
      "choose_victim cfg (sets s ! si) = Some v"
      "allocateBlock cfg si t s =
         Some (install si v t
           (if dirty (sets s ! si ! v) \<and> \<not> write_through cfg
            then add_cycles (block_transfer_cycles cfg) s else s))"
proof -
  let ?n = "num_blocks_per_set cfg"
  let ?bs = "sets s ! si"
  have inr: "\<forall>i\<in>set [0..<?n]. i < length ?bs" using assms by simp
  from find_free_total [OF inr] obtain r where r: "find_free ?bs [0..<?n] = Some r"
    by auto
  show thesis
  proof (cases r)
    case None
    with r have full: "\<forall>j<?n. valid (?bs ! j)"
      using find_free_NoneD [of ?bs "[0..<?n]"] by simp
    from choose_victim_total [OF assms] obtain v where
      v: "choose_victim cfg ?bs = Some v" "v < ?n" by blast
    have "allocateBlock cfg si t s =
         Some (install si v t
           (if dirty (?bs ! v) \<and> \<not> write_through cfg
            then add_cycles (block_transfer_cycles cfg) s else s))"
      using r None v assms by (simp add: allocateBlock_def evictBlock_def)
    with v full show thesis by (rule_tac evict)
  next
    case (Some i)
    with r have "i < ?n" "\<not> valid (?bs ! i)"
      using find_free_SomeD [of ?bs "[0..<?n]" i] by simp_all
    moreover have "allocateBlock cfg si t s = Some (install si i t s)"
      using r Some by (simp add: allocateBlock_def)
    ultimately show thesis by (rule free)
  qed
qed

lemma find_hit_cases:
  assumes "length bs = n"
  obtains (hit) i where "i < n" "valid (bs ! i)" "tag (bs ! i) = t"
      "find_hit bs t [0..<n] = Some (Some i)"
  | (miss) "\<forall>j<n. \<not> (valid (bs ! j) \<and> tag (bs ! j) = t)"
      "find_hit bs t [0..<n] = Some None"
proof -
  have "\<forall>i\<in>set [0..<n]. i < length bs" using assms by simp
  from find_hit_total [OF this] obtain r where r: "find_hit bs t [0..<n] = Some r"
    by auto
  show thesis
  proof (cases r)
    case None
    with r have "\<forall>j<n. \<not> (valid (bs ! j) \<and> tag (bs ! j) = t)"
      using find_hit_NoneD [of bs t "[0..<n]"] by simp
    with r None show thesis by (rule_tac miss) simp_all
  next
    case (Some i)
    with r have "i < n" "valid (bs ! i)" "tag (bs ! i) = t"
      using find_hit_SomeD [of bs t "[0..<n]" i] by simp_all
    with r Some show thesis by (rule_tac hit) simp_all
  qed
qed

lemma mark_dirty_unique:
  assumes len: "length (sets s ! si) = num_blocks_per_set cfg"
    and i: "i < num_blocks_per_set cfg"
    and here: "valid (sets s ! si ! i)" "tag (sets s ! si ! i) = t"
    and others: "\<forall>j<num_blocks_per_set cfg. j \<noteq> i \<longrightarrow>
                   \<not> (valid (sets s ! si ! j) \<and> tag (sets s ! si ! j) = t)"
  shows "mark_dirty cfg si t s = Some (update_block si i (\<lambda>b. b\<lparr>dirty := True\<rparr>) s)"
  using len
proof (cases rule: find_hit_cases [where t = t])
  case (hit j)
  with others have "j = i" by blast
  with hit show ?thesis by (simp add: mark_dirty_def)
next
  case miss
  with i here show ?thesis by blast
qed

text \<open>
  On a well-formed cache every access returns, and it took one of three branches:
  a hit, a store that goes around the cache, or a miss that fills one slot.
\<close>

lemma processAccess_cases:
  fixes cfg s a operation
  defines "si \<equiv> unat (set_index_of cfg a)"
    and "t \<equiv> tag_of cfg a"
    and "n \<equiv> num_blocks_per_set cfg"
  defines "bs \<equiv> sets s ! si"
  assumes wf: "well_formed cfg s"
  obtains
    (Hit) i s' where
      "processAccess cfg operation a s = Some s'"
      "i < n" "valid (bs ! i)" "tag (bs ! i) = t"
      "sets s' = (sets s)[si := bs[i := (bs ! i)
         \<lparr>lru_count := global_counter s + 1,
          dirty := dirty (bs ! i) \<or> (operation \<noteq> CHR ''l'' \<and> \<not> write_through cfg)\<rparr>]]"
      "global_counter s' = global_counter s + 1"
      "hits s' = hits s + 1" "misses s' = misses s"
  | (Around) s' where
      "processAccess cfg operation a s = Some s'"
      "operation \<noteq> CHR ''l''" "\<not> write_allocate cfg"
      "\<forall>j<n. \<not> (valid (bs ! j) \<and> tag (bs ! j) = t)"
      "sets s' = sets s" "global_counter s' = global_counter s"
      "hits s' = hits s" "misses s' = misses s + 1"
  | (Fill) i s' where
      "processAccess cfg operation a s = Some s'"
      "operation = CHR ''l'' \<or> write_allocate cfg"
      "i < n" "\<forall>j<n. \<not> (valid (bs ! j) \<and> tag (bs ! j) = t)"
      "sets s' = (sets s)[si := bs[i := (bs ! i)
         \<lparr>valid := True, tag := t, lru_count := global_counter s + 1,
          dirty := operation \<noteq> CHR ''l'' \<and> \<not> write_through cfg\<rparr>]]"
      "global_counter s' = global_counter s + 1"
      "hits s' = hits s" "misses s' = misses s + 1"
proof -
  have si: "si < length (sets s)"
    unfolding si_def using wf by (rule wf_set_index)
  have len: "length bs = n"
    unfolding bs_def n_def using wf si by (rule wf_set_length)
  have pos: "0 < n"
    using wf by (simp add: well_formed_def n_def)
  show thesis
  proof (cases "operation = CHR ''l''")
    case load: True
    let ?s1 = "add_cycles 1 (s\<lparr>total_loads := total_loads s + 1\<rparr>)"
    from len show thesis
    proof (cases rule: find_hit_cases [where t = t])
      case (hit i)
      let ?s' = "touch si i (?s1\<lparr>load_hits := load_hits ?s1 + 1\<rparr>)"
      have "processAccess cfg operation a s = Some ?s'"
        using load si hit(4)
        by (simp add: processAccess_def processLoad_def Let_def si_def [symmetric]
            t_def [symmetric] n_def [symmetric] bs_def [symmetric])
      moreover have "sets ?s' = (sets s)[si := bs[i := (bs ! i)
         \<lparr>lru_count := global_counter s + 1,
          dirty := dirty (bs ! i) \<or> (operation \<noteq> CHR ''l'' \<and> \<not> write_through cfg)\<rparr>]]"
        using load by (simp add: bs_def)
      moreover have "global_counter ?s' = global_counter s + 1" by simp
      moreover have "hits ?s' = hits s + 1" "misses ?s' = misses s"
        by (simp_all add: hits_def misses_def)
      ultimately show thesis using hit(1-3) by (rule_tac Hit [of ?s' i]) simp_all
    next
      case miss
      let ?s2 = "add_cycles (block_transfer_cycles cfg) (?s1\<lparr>load_misses := load_misses ?s1 + 1\<rparr>)"
      have pa: "processAccess cfg operation a s = allocateBlock cfg si t ?s2"
        using load si miss(2)
        by (simp add: processAccess_def processLoad_def Let_def si_def [symmetric]
            t_def [symmetric] n_def [symmetric] bs_def [symmetric])
      have len2: "length (sets ?s2 ! si) = num_blocks_per_set cfg"
        using len by (simp add: bs_def n_def)
      have pos2: "0 < num_blocks_per_set cfg" using pos by (simp add: n_def)
      from len2 pos2 show thesis
      proof (cases rule: allocateBlock_cases [where t = t])
        case (free i)
        let ?s' = "install si i t ?s2"
        have "processAccess cfg operation a s = Some ?s'"
          using pa free(3) by simp
        moreover have "sets ?s' = (sets s)[si := bs[i := (bs ! i)
           \<lparr>valid := True, tag := t, lru_count := global_counter s + 1,
            dirty := operation \<noteq> CHR ''l'' \<and> \<not> write_through cfg\<rparr>]]"
          using load by (simp add: bs_def)
        moreover have "global_counter ?s' = global_counter s + 1" by simp
        moreover have "hits ?s' = hits s" "misses ?s' = misses s + 1"
          by (simp_all add: hits_def misses_def)
        ultimately show thesis using free(1) miss(1) load
          by (rule_tac Fill [of ?s' i]) (simp_all add: n_def)
      next
        case (evict v)
        let ?s3 = "if dirty (sets ?s2 ! si ! v) \<and> \<not> write_through cfg
            then add_cycles (block_transfer_cycles cfg) ?s2 else ?s2"
        let ?s' = "install si v t ?s3"
        have "processAccess cfg operation a s = Some ?s'"
          using pa evict(4) by simp
        moreover have "sets ?s' = (sets s)[si := bs[v := (bs ! v)
           \<lparr>valid := True, tag := t, lru_count := global_counter s + 1,
            dirty := operation \<noteq> CHR ''l'' \<and> \<not> write_through cfg\<rparr>]]"
          using load by (simp add: bs_def)
        moreover have "global_counter ?s' = global_counter s + 1" by simp
        moreover have "hits ?s' = hits s" "misses ?s' = misses s + 1"
          by (simp_all add: hits_def misses_def)
        ultimately show thesis using evict(1) miss(1) load
          by (rule_tac Fill [of ?s' v]) (simp_all add: n_def)
      qed
    qed
  next
    case store: False
    let ?s1 = "add_cycles 1 (s\<lparr>total_stores := total_stores s + 1\<rparr>)"
    from len show thesis
    proof (cases rule: find_hit_cases [where t = t])
      case (hit i)
      let ?sh = "touch si i (?s1\<lparr>store_hits := store_hits ?s1 + 1\<rparr>)"
      let ?s' = "if \<not> write_through cfg
                 then update_block si i (\<lambda>b. b\<lparr>dirty := True\<rparr>) ?sh
                 else add_cycles 100 ?sh"
      have "processAccess cfg operation a s = Some ?s'"
        using store si hit(4)
        by (simp add: processAccess_def processStore_def Let_def si_def [symmetric]
            t_def [symmetric] n_def [symmetric] bs_def [symmetric])
      moreover have "sets ?s' = (sets s)[si := bs[i := (bs ! i)
         \<lparr>lru_count := global_counter s + 1,
          dirty := dirty (bs ! i) \<or> (operation \<noteq> CHR ''l'' \<and> \<not> write_through cfg)\<rparr>]]"
        using store si hit(1) len by (simp add: bs_def)
      moreover have "global_counter ?s' = global_counter s + 1" by simp
      moreover have "hits ?s' = hits s + 1" "misses ?s' = misses s"
        by (simp_all add: hits_def misses_def)
      ultimately show thesis using hit(1-3) by (rule_tac Hit [of ?s' i]) simp_all
    next
      case miss
      let ?sm = "?s1\<lparr>store_misses := store_misses ?s1 + 1\<rparr>"
      show thesis
      proof (cases "write_allocate cfg")
        case False
        let ?s' = "add_cycles 100 ?sm"
        have "processAccess cfg operation a s = Some ?s'"
          using store si miss(2) False
          by (simp add: processAccess_def processStore_def Let_def si_def [symmetric]
              t_def [symmetric] n_def [symmetric] bs_def [symmetric])
        moreover have "hits ?s' = hits s" "misses ?s' = misses s + 1"
          by (simp_all add: hits_def misses_def)
        ultimately show thesis using store False miss(1)
          by (rule_tac Around [of ?s']) simp_all
      next
        case True
        let ?s2 = "add_cycles (block_transfer_cycles cfg) ?sm"
        have pa: "processAccess cfg operation a s =
            (case allocateBlock cfg si t ?s2 of None \<Rightarrow> None
             | Some s2 \<Rightarrow> if \<not> write_through cfg then mark_dirty cfg si t s2
                          else Some (add_cycles 100 s2))"
          using store si miss(2) True unfolding si_def t_def n_def bs_def
          by (simp add: processAccess_def processStore_def Let_def)
        have installed: thesis
          if i: "i < n" and s3: "sets s3 = sets s" "global_counter s3 = global_counter s"
            "hits s3 = hits s" "misses s3 = misses s + 1"
            and alloc: "allocateBlock cfg si t ?s2 = Some (install si i t s3)"
          for i s3
        proof -
          let ?s4 = "install si i t s3"
          let ?s' = "if \<not> write_through cfg
                     then update_block si i (\<lambda>b. b\<lparr>dirty := True\<rparr>) ?s4
                     else add_cycles 100 ?s4"
          have md: "mark_dirty cfg si t ?s4 = Some (update_block si i (\<lambda>b. b\<lparr>dirty := True\<rparr>) ?s4)"
          proof (rule mark_dirty_unique)
            show "length (sets ?s4 ! si) = num_blocks_per_set cfg"
              using si len s3 by (simp add: bs_def n_def)
            show "i < num_blocks_per_set cfg" using i by (simp add: n_def)
            show "valid (sets ?s4 ! si ! i)" "tag (sets ?s4 ! si ! i) = t"
              using si len i s3 by (simp_all add: bs_def)
            show "\<forall>j<num_blocks_per_set cfg. j \<noteq> i \<longrightarrow>
                \<not> (valid (sets ?s4 ! si ! j) \<and> tag (sets ?s4 ! si ! j) = t)"
              using si len i s3 miss(1) by (simp add: bs_def n_def)
          qed
          have "processAccess cfg operation a s = Some ?s'"
            using pa alloc md by simp
          moreover have "sets ?s' = (sets s)[si := bs[i := (bs ! i)
             \<lparr>valid := True, tag := t, lru_count := global_counter s + 1,
              dirty := operation \<noteq> CHR ''l'' \<and> \<not> write_through cfg\<rparr>]]"
            using store si i len s3 by (simp add: bs_def)
          moreover have "global_counter ?s' = global_counter s + 1"
            using s3 by simp
          moreover have "hits ?s' = hits s" "misses ?s' = misses s + 1"
            using s3 by (simp_all add: hits_def misses_def)
          ultimately show thesis using i miss(1) True
            by (rule_tac Fill [of ?s' i]) simp_all
        qed
        have len2: "length (sets ?s2 ! si) = num_blocks_per_set cfg"
          using len by (simp add: bs_def n_def)
        have pos2: "0 < num_blocks_per_set cfg" using pos by (simp add: n_def)
        from len2 pos2 show thesis
        proof (cases rule: allocateBlock_cases [where t = t])
          case (free i)
          show thesis
          proof (rule installed [of i ?s2])
            show "i < n" using free(1) by (simp add: n_def)
            show "allocateBlock cfg si t ?s2 = Some (install si i t ?s2)" by (rule free(3))
          qed (simp_all add: hits_def misses_def)
        next
          case (evict v)
          let ?s3 = "if dirty (sets ?s2 ! si ! v) \<and> \<not> write_through cfg
              then add_cycles (block_transfer_cycles cfg) ?s2 else ?s2"
          show thesis
          proof (rule installed [of v ?s3])
            show "v < n" using evict(1) by (simp add: n_def)
            show "allocateBlock cfg si t ?s2 = Some (install si v t ?s3)" by (rule evict(4))
          qed (simp_all add: hits_def misses_def)
        qed
      qed
    qed
  qed
qed

section \<open>Every access returns and keeps the shape of the cache\<close>

lemma wf_sets_update:
  assumes "well_formed cfg s" "sets s' = (sets s)[si := (sets s ! si)[i := b]]"
  shows "well_formed cfg s'"
proof -
  have "length (sets s' ! k) = num_blocks_per_set cfg" if "k < length (sets s)" for k
    using that assms by (cases "k = si") (simp_all add: well_formed_def list_all_length)
  with assms show ?thesis by (simp add: well_formed_def list_all_length)
qed

lemma processAccess_wf:
  assumes "well_formed cfg s"
  shows "\<exists>s'. processAccess cfg operation a s = Some s' \<and> well_formed cfg s'"
  using assms
proof (cases rule: processAccess_cases [where operation = operation and a = a])
  case (Hit i s')
  then show ?thesis using assms wf_sets_update by blast
next
  case (Around s')
  with assms have "well_formed cfg s'" by (simp add: well_formed_def)
  with Around show ?thesis by blast
next
  case (Fill i s')
  then show ?thesis using assms wf_sets_update by blast
qed

lemma run_invariant:
  assumes "well_formed cfg s" "P s"
    and step: "\<And>s operation a s'. well_formed cfg s \<Longrightarrow> P s \<Longrightarrow>
                 processAccess cfg operation a s = Some s' \<Longrightarrow> P s'"
  shows "\<exists>s'. run cfg s trace = Some s' \<and> well_formed cfg s' \<and> P s'"
  using assms(1,2)
proof (induction trace arbitrary: s)
  case Nil
  then show ?case by simp
next
  case (Cons x trace)
  obtain operation a where x: "x = (operation, a)" by (cases x)
  from processAccess_wf [OF Cons.prems(1)] obtain s1 where
    s1: "processAccess cfg operation a s = Some s1" "well_formed cfg s1" by blast
  from step [OF Cons.prems s1(1)] have "P s1" .
  from Cons.IH [OF s1(2) this] show ?case using x s1(1) by simp
qed

lemma filter_valid_update_same:
  "i < length bs \<Longrightarrow> valid b = valid (bs ! i) \<Longrightarrow> tag b = tag (bs ! i) \<Longrightarrow>
   map tag (filter valid (bs[i := b])) = map tag (filter valid bs)"
  by (induction bs arbitrary: i) (auto split: nat.splits simp: nth_Cons')

lemma no_dup_tags_keep:
  "i < length bs \<Longrightarrow> valid b = valid (bs ! i) \<Longrightarrow> tag b = tag (bs ! i) \<Longrightarrow>
   no_dup_tags (bs[i := b]) = no_dup_tags bs"
  by (simp add: no_dup_tags_def filter_valid_update_same)

lemma no_dup_tags_fill:
  assumes "no_dup_tags bs" "\<forall>x\<in>set bs. \<not> (valid x \<and> tag x = t)" "valid b" "tag b = t"
  shows "no_dup_tags (bs[i := b])"
  using assms unfolding no_dup_tags_def
proof (induction bs arbitrary: i)
  case Nil
  then show ?case by simp
next
  case (Cons x xs)
  show ?case
  proof (cases i)
    case 0
    with Cons.prems show ?thesis by (auto split: if_splits)
  next
    case (Suc k)
    have sub: "set (xs[k := b]) \<subseteq> insert b (set xs)" by (rule set_update_subset_insert)
    have IH: "distinct (map tag (filter valid (xs[k := b])))"
      using Cons.IH [of k] Cons.prems by (auto split: if_splits)
    show ?thesis
    proof (cases "valid x")
      case False
      with IH Suc show ?thesis by simp
    next
      case True
      have "tag x \<notin> tag ` set (filter valid (xs[k := b]))"
      proof
        assume "tag x \<in> tag ` set (filter valid (xs[k := b]))"
        then obtain y where y: "y \<in> set (xs[k := b])" "valid y" "tag y = tag x" by auto
        with sub have "y = b \<or> y \<in> set xs" by auto
        then show False
        proof
          assume "y = b"
          with y Cons.prems True show False by auto
        next
          assume "y \<in> set xs"
          with y Cons.prems(1) True show False by (auto simp: image_iff)
        qed
      qed
      with IH True Suc show ?thesis by simp
    qed
  qed
qed

lemma valid_count_update:
  "(i < length bs \<Longrightarrow> valid (bs ! i) \<Longrightarrow> valid b) \<Longrightarrow> valid_count bs \<le> valid_count (bs[i := b])"
  unfolding valid_count_def
  by (induction bs arbitrary: i) (auto split: nat.splits simp: nth_Cons' le_SucI)

lemma valid_count_le: "valid_count bs \<le> length bs"
  by (simp add: valid_count_def)

lemma list_all_update: "list_all P xs \<Longrightarrow> P x \<Longrightarrow> list_all P (xs[i := x])"
  using set_update_subset_insert [of xs i x] by (fastforce simp: list_all_iff)

section \<open>Statistics\<close>


lemma counted_refl: "counted s s 0 0 0 0 0"
  by (simp add: counted_def)





















section \<open>A store miss without write-allocate\<close>

text \<open>
  C6. On a well-formed cache, under no-write-allocate, a store to an address that is
  not resident returns the state it started from with totalStores and storeMisses
  one higher and totalCycles 101 higher: the sets, with every field of every block,
  and the global counter are the same.
\<close>

theorem store_miss_write_around:
  assumes wf: "well_formed cfg s"
    and around: "\<not> write_allocate cfg"
    and store: "operation \<noteq> CHR ''l''"
    and miss: "\<not> resident cfg s a"
  shows "processAccess cfg operation a s =
           Some (s\<lparr>total_stores := total_stores s + 1,
                   store_misses := store_misses s + 1,
                   total_cycles := total_cycles s + 101\<rparr>)"
proof -
  let ?si = "unat (set_index_of cfg a)"
  have si: "?si < length (sets s)" using wf by (rule wf_set_index)
  have len: "length (sets s ! ?si) = num_blocks_per_set cfg" using wf si by (rule wf_set_length)
  from len have "find_hit (sets s ! ?si) (tag_of cfg a) [0..<num_blocks_per_set cfg] = Some None"
  proof (cases rule: find_hit_cases [where t = "tag_of cfg a"])
    case (hit i)
    with len have "sets s ! ?si ! i \<in> set (sets s ! ?si)" by simp
    with hit(2,3) miss show ?thesis by (auto simp: resident_def list_ex_iff)
  next
    case miss
    then show ?thesis by simp
  qed
  with si around store show ?thesis
    by (simp add: processAccess_def processStore_def Let_def add_cycles_def)
qed

theorem store_miss_write_around_witness:
  "well_formed (mk_config 4 1 16 False True True) (empty_cache (mk_config 4 1 16 False True True)) \<and>
   \<not> write_allocate (mk_config 4 1 16 False True True) \<and>
   CHR ''s'' \<noteq> CHR ''l'' \<and>
   \<not> resident (mk_config 4 1 16 False True True)
       (empty_cache (mk_config 4 1 16 False True True)) 0x40 \<and>
   processAccess (mk_config 4 1 16 False True True) (CHR ''s'') 0x40
       (empty_cache (mk_config 4 1 16 False True True)) =
     Some ((empty_cache (mk_config 4 1 16 False True True))
       \<lparr>total_stores := total_stores (empty_cache (mk_config 4 1 16 False True True)) + 1,
        store_misses := store_misses (empty_cache (mk_config 4 1 16 False True True)) + 1,
        total_cycles := total_cycles (empty_cache (mk_config 4 1 16 False True True)) + 101\<rparr>)"
proof -
  let ?cfg = "mk_config 4 1 16 False True True"
  have h1: "well_formed ?cfg (empty_cache ?cfg)" by code_simp
  have h2: "\<not> write_allocate ?cfg" by code_simp
  have h3: "CHR ''s'' \<noteq> CHR ''l''" by simp
  have h4: "\<not> resident ?cfg (empty_cache ?cfg) 0x40" by code_simp
  from store_miss_write_around [OF h1 h2 h3 h4] h1 h2 h3 h4 show ?thesis
    by blast
qed

section \<open>Allocation into a full set\<close>

lemma CacheBlock_all_updated:
  "b\<lparr>valid := v, tag := t, lru_count := c, dirty := d\<rparr> =
   \<lparr>valid = v, dirty = d, tag = t, lru_count = c\<rparr>"
  by (cases b) simp

text \<open>
  C7. When every block of the set is valid, allocateBlock picks one slot \<open>v\<close>, the
  one evictBlock's scan chooses, and returns the state in which that slot alone is
  rewritten: it is valid, clean, holds the new tag and carries the incremented
  global counter as its stamp; the global counter is incremented; and totalCycles
  grows by \<open>100 * (block_size / 4)\<close> exactly when the old block of the slot was
  dirty and the cache is write-back.
\<close>

theorem allocate_into_full_set:
  assumes si: "si < length (sets s)"
    and len: "length (sets s ! si) = num_blocks_per_set cfg"
    and pos: "0 < num_blocks_per_set cfg"
    and full: "list_all valid (sets s ! si)"
  shows "\<exists>v<num_blocks_per_set cfg.
           choose_victim cfg (sets s ! si) = Some v \<and>
           allocateBlock cfg si t s =
             Some (s\<lparr>sets := (sets s)[si := (sets s ! si)[v :=
                        \<lparr>valid = True, dirty = False, tag = t,
                         lru_count = global_counter s + 1\<rparr>]],
                     global_counter := global_counter s + 1,
                     total_cycles := total_cycles s +
                       (if dirty (sets s ! si ! v) \<and> \<not> write_through cfg
                        then block_transfer_cycles cfg else 0)\<rparr>)"
  using len pos
proof (cases rule: allocateBlock_cases [where t = t])
  case (free i)
  with full len show ?thesis by (simp add: list_all_length)
next
  case (evict v)
  have "install si v t
           (if dirty (sets s ! si ! v) \<and> \<not> write_through cfg
            then add_cycles (block_transfer_cycles cfg) s else s) =
        s\<lparr>sets := (sets s)[si := (sets s ! si)[v :=
                        \<lparr>valid = True, dirty = False, tag = t,
                         lru_count = global_counter s + 1\<rparr>]],
                     global_counter := global_counter s + 1,
                     total_cycles := total_cycles s +
                       (if dirty (sets s ! si ! v) \<and> \<not> write_through cfg
                        then block_transfer_cycles cfg else 0)\<rparr>"
    by (simp add: install_def update_block_def add_cycles_def Let_def CacheBlock_all_updated)
  with evict show ?thesis by auto
qed

theorem allocate_into_full_set_witness:
  "(0::nat) < length (sets example_full) \<and>
   length (sets example_full ! 0) = num_blocks_per_set (mk_config 1 2 16 True False True) \<and>
   0 < num_blocks_per_set (mk_config 1 2 16 True False True) \<and>
   list_all valid (sets example_full ! 0) \<and>
   choose_victim (mk_config 1 2 16 True False True) (sets example_full ! 0) = Some 0 \<and>
   allocateBlock (mk_config 1 2 16 True False True) 0 2 example_full =
     Some (example_full
       \<lparr>sets := [[\<lparr>valid = True, dirty = False, tag = 2, lru_count = 3\<rparr>,
                  \<lparr>valid = True, dirty = False, tag = 1, lru_count = 2\<rparr>]],
        global_counter := 3,
        total_cycles := 1202\<rparr>)"
proof -
  let ?cfg = "mk_config 1 2 16 True False True"
  have h1: "0 < length (sets example_full)" by code_simp
  have h2: "length (sets example_full ! 0) = num_blocks_per_set ?cfg" by code_simp
  have h3: "0 < num_blocks_per_set ?cfg" by code_simp
  have h4: "list_all valid (sets example_full ! 0)" by code_simp
  have v0: "choose_victim ?cfg (sets example_full ! 0) = Some 0" by code_simp
  from allocate_into_full_set [OF h1 h2 h3 h4, of 2] v0
  have "allocateBlock ?cfg 0 2 example_full =
      Some (example_full\<lparr>sets := (sets example_full)[0 := (sets example_full ! 0)[0 :=
                        \<lparr>valid = True, dirty = False, tag = 2,
                         lru_count = global_counter example_full + 1\<rparr>]],
                     global_counter := global_counter example_full + 1,
                     total_cycles := total_cycles example_full +
                       (if dirty (sets example_full ! 0 ! 0) \<and> \<not> write_through ?cfg
                        then block_transfer_cycles ?cfg else 0)\<rparr>)"
    by auto
  then have "allocateBlock ?cfg 0 2 example_full =
     Some (example_full
       \<lparr>sets := [[\<lparr>valid = True, dirty = False, tag = 2, lru_count = 3\<rparr>,
                  \<lparr>valid = True, dirty = False, tag = 1, lru_count = 2\<rparr>]],
        global_counter := 3,
        total_cycles := 1202\<rparr>)"
    by (simp add: example_full_def mk_config_def block_transfer_cycles_def)
  with h1 h2 h3 h4 v0 show ?thesis by blast
qed

section \<open>No duplicate residency\<close>

lemma processAccess_no_dup:
  assumes wf: "well_formed cfg s" and inv: "list_all no_dup_tags (sets s)"
    and step: "processAccess cfg operation a s = Some s'"
  shows "list_all no_dup_tags (sets s')"
proof -
  let ?si = "unat (set_index_of cfg a)"
  let ?bs = "sets s ! ?si"
  have si: "?si < length (sets s)" using wf by (rule wf_set_index)
  have len: "length ?bs = num_blocks_per_set cfg" using wf si by (rule wf_set_length)
  have nd: "no_dup_tags ?bs" using inv si by (simp add: list_all_length)
  from wf show ?thesis
  proof (cases rule: processAccess_cases [where operation = operation and a = a])
    case (Hit i s1)
    have "no_dup_tags (?bs[i := (?bs ! i)\<lparr>lru_count := global_counter s + 1,
        dirty := dirty (?bs ! i) \<or> (operation \<noteq> CHR ''l'' \<and> \<not> write_through cfg)\<rparr>])"
      using nd Hit(2) len by (simp add: no_dup_tags_keep)
    with Hit(1,5) step inv show ?thesis by (simp add: list_all_update)
  next
    case (Around s1)
    with step inv show ?thesis by simp
  next
    case (Fill i s1)
    have "\<forall>x\<in>set ?bs. \<not> (valid x \<and> tag x = tag_of cfg a)"
      using Fill(4) len by (auto simp: in_set_conv_nth)
    with nd have "no_dup_tags (?bs[i := (?bs ! i)\<lparr>valid := True, tag := tag_of cfg a,
        lru_count := global_counter s + 1,
        dirty := operation \<noteq> CHR ''l'' \<and> \<not> write_through cfg\<rparr>])"
      by (rule no_dup_tags_fill) simp_all
    with Fill(1,5) step inv show ?thesis by (simp add: list_all_update)
  qed
qed

lemma empty_cache_no_dup: "list_all no_dup_tags (sets (empty_cache cfg))"
  by (simp add: empty_cache_def CacheSet_new_def CacheBlock_new_def no_dup_tags_def list_all_iff)

text \<open>
  C8. From the constructor's state (at least one set and one block per set), every
  trace runs to a state in which every set has at most \<open>blocks_per_set\<close> valid
  blocks and no two valid blocks of a set hold the same tag.
\<close>

theorem no_duplicate_residency:
  assumes "0 < nsets" "0 < blocks_per_set"
  shows "\<exists>s. run (mk_config nsets blocks_per_set bytes wa wt lru)
                (empty_cache (mk_config nsets blocks_per_set bytes wa wt lru)) trace = Some s \<and>
             list_all (\<lambda>bs. valid_count bs \<le> blocks_per_set \<and> no_dup_tags bs) (sets s)"
proof -
  let ?cfg = "mk_config nsets blocks_per_set bytes wa wt lru"
  have "\<exists>s. run ?cfg (empty_cache ?cfg) trace = Some s \<and> well_formed ?cfg s \<and>
          list_all no_dup_tags (sets s)"
  proof (rule run_invariant [where P = "\<lambda>s. list_all no_dup_tags (sets s)"])
    show "well_formed ?cfg (empty_cache ?cfg)" using assms by (rule wf_empty_cache)
    show "list_all no_dup_tags (sets (empty_cache ?cfg))" by (rule empty_cache_no_dup)
    show "list_all no_dup_tags (sets s')"
      if "well_formed ?cfg s" "list_all no_dup_tags (sets s)" "processAccess ?cfg operation a s = Some s'"
      for s operation a s'
      using that by (rule processAccess_no_dup)
  qed
  then obtain s where s: "run ?cfg (empty_cache ?cfg) trace = Some s" "well_formed ?cfg s"
    "list_all no_dup_tags (sets s)" by blast
  have "valid_count bs \<le> blocks_per_set" if "bs \<in> set (sets s)" for bs
  proof -
    from s(2) that have "length bs = blocks_per_set"
      by (simp add: well_formed_def list_all_iff mk_config_def)
    with valid_count_le [of bs] show ?thesis by simp
  qed
  with s(1,3) show ?thesis by (auto simp: list_all_iff)
qed

theorem no_duplicate_residency_witness:
  "(0::nat) < 1 \<and> (0::nat) < 2 \<and>
   (\<exists>s. run (mk_config 1 2 16 True False True) (empty_cache (mk_config 1 2 16 True False True))
           [(CHR ''l'', 0x00), (CHR ''s'', 0x10), (CHR ''l'', 0x20), (CHR ''s'', 0x10)] = Some s \<and>
        list_all (\<lambda>bs. valid_count bs \<le> 2 \<and> no_dup_tags bs) (sets s))"
  using no_duplicate_residency [of 1 2 16 True False True
      "[(CHR ''l'', 0x00), (CHR ''s'', 0x10), (CHR ''l'', 0x20), (CHR ''s'', 0x10)]"]
  by simp

section \<open>Write-through keeps every block clean\<close>

lemma processAccess_clean:
  assumes wf: "well_formed cfg s" and wt: "write_through cfg"
    and inv: "list_all (list_all (\<lambda>b. \<not> dirty b)) (sets s)"
    and step: "processAccess cfg operation a s = Some s'"
  shows "list_all (list_all (\<lambda>b. \<not> dirty b)) (sets s')"
proof -
  let ?si = "unat (set_index_of cfg a)"
  let ?bs = "sets s ! ?si"
  have si: "?si < length (sets s)" using wf by (rule wf_set_index)
  have len: "length ?bs = num_blocks_per_set cfg" using wf si by (rule wf_set_length)
  have cl: "list_all (\<lambda>b. \<not> dirty b) ?bs" using inv si by (simp add: list_all_length)
  from wf show ?thesis
  proof (cases rule: processAccess_cases [where operation = operation and a = a])
    case (Hit i s1)
    have "\<not> dirty (?bs ! i)" using cl Hit(2) len by (simp add: list_all_length)
    with cl wt have "list_all (\<lambda>b. \<not> dirty b) (?bs[i := (?bs ! i)\<lparr>lru_count := global_counter s + 1,
        dirty := dirty (?bs ! i) \<or> (operation \<noteq> CHR ''l'' \<and> \<not> write_through cfg)\<rparr>])"
      by (simp add: list_all_update)
    with Hit(1,5) step inv show ?thesis by (simp add: list_all_update)
  next
    case (Around s1)
    with step inv show ?thesis by simp
  next
    case (Fill i s1)
    from cl wt have "list_all (\<lambda>b. \<not> dirty b) (?bs[i := (?bs ! i)\<lparr>valid := True, tag := tag_of cfg a,
        lru_count := global_counter s + 1,
        dirty := operation \<noteq> CHR ''l'' \<and> \<not> write_through cfg\<rparr>])"
      by (simp add: list_all_update)
    with Fill(1,5) step inv show ?thesis by (simp add: list_all_update)
  qed
qed

lemma empty_cache_clean: "list_all (list_all (\<lambda>b. \<not> dirty b)) (sets (empty_cache cfg))"
  by (simp add: empty_cache_def CacheSet_new_def CacheBlock_new_def list_all_iff)

lemma evictBlock_total:
  assumes "well_formed cfg s" "si < num_sets cfg"
  shows "\<exists>v<num_blocks_per_set cfg. evictBlock cfg si t s =
     Some (install si v t
       (if dirty (sets s ! si ! v) \<and> \<not> write_through cfg
        then add_cycles (block_transfer_cycles cfg) s else s))"
proof -
  from assms have len: "length (sets s ! si) = num_blocks_per_set cfg"
    by (simp add: well_formed_def list_all_length)
  from assms have pos: "0 < num_blocks_per_set cfg" by (simp add: well_formed_def)
  from choose_victim_total [OF len pos] obtain v where
    "choose_victim cfg (sets s ! si) = Some v" "v < num_blocks_per_set cfg" by blast
  with len show ?thesis by (auto simp add: evictBlock_def)
qed

text \<open>
  C9. Under write-through, from the constructor's state, every trace runs to a state
  in which no block is dirty; and in that state evictBlock, on any set and for any
  tag, returns with totalCycles unchanged: the write-back cost is not added.
\<close>

theorem write_through_never_dirty:
  assumes "0 < nsets" "0 < blocks_per_set"
  shows "\<exists>s. run (mk_config nsets blocks_per_set bytes wa True lru)
                (empty_cache (mk_config nsets blocks_per_set bytes wa True lru)) trace = Some s \<and>
             list_all (list_all (\<lambda>b. \<not> dirty b)) (sets s) \<and>
             (\<forall>si<nsets. \<exists>s'. evictBlock (mk_config nsets blocks_per_set bytes wa True lru) si t s = Some s' \<and>
                  total_cycles s' = total_cycles s)"
proof -
  let ?cfg = "mk_config nsets blocks_per_set bytes wa True lru"
  have wt: "write_through ?cfg" by (simp add: mk_config_def)
  have "\<exists>s. run ?cfg (empty_cache ?cfg) trace = Some s \<and> well_formed ?cfg s \<and>
          list_all (list_all (\<lambda>b. \<not> dirty b)) (sets s)"
  proof (rule run_invariant [where P = "\<lambda>s. list_all (list_all (\<lambda>b. \<not> dirty b)) (sets s)"])
    show "well_formed ?cfg (empty_cache ?cfg)" using assms by (rule wf_empty_cache)
    show "list_all (list_all (\<lambda>b. \<not> dirty b)) (sets (empty_cache ?cfg))"
      by (rule empty_cache_clean)
    show "list_all (list_all (\<lambda>b. \<not> dirty b)) (sets s')"
      if "well_formed ?cfg s" "list_all (list_all (\<lambda>b. \<not> dirty b)) (sets s)"
        "processAccess ?cfg operation a s = Some s'"
      for s operation a s'
      using that(1) wt that(2,3) by (rule processAccess_clean)
  qed
  then obtain s where s: "run ?cfg (empty_cache ?cfg) trace = Some s" "well_formed ?cfg s"
    "list_all (list_all (\<lambda>b. \<not> dirty b)) (sets s)" by blast
  have "\<exists>s'. evictBlock ?cfg si t s = Some s' \<and> total_cycles s' = total_cycles s"
    if "si < nsets" for si
  proof -
    from that have "si < num_sets ?cfg" by (simp add: mk_config_def)
    from evictBlock_total [OF s(2) this, of t] wt show ?thesis by auto
  qed
  with s(1,3) show ?thesis by blast
qed

theorem write_through_never_dirty_witness:
  "(0::nat) < 1 \<and> (0::nat) < 2 \<and>
   (\<exists>s. run (mk_config 1 2 16 True True True) (empty_cache (mk_config 1 2 16 True True True))
           [(CHR ''s'', 0x00), (CHR ''s'', 0x10), (CHR ''s'', 0x00)] = Some s \<and>
        list_all (list_all (\<lambda>b. \<not> dirty b)) (sets s) \<and>
        (\<exists>s'. evictBlock (mk_config 1 2 16 True True True) 0 2 s = Some s' \<and>
              total_cycles s' = total_cycles s))"
  using write_through_never_dirty [of 1 2 16 True True
      "[(CHR ''s'', 0x00), (CHR ''s'', 0x10), (CHR ''s'', 0x00)]" 2]
  by simp

section \<open>A valid slot stays valid\<close>

lemma processAccess_valid_mono:
  assumes wf: "well_formed cfg s" and step: "processAccess cfg operation a s = Some s'"
    and k: "k < num_sets cfg"
  shows "valid_count (sets s ! k) \<le> valid_count (sets s' ! k) \<and>
         (\<forall>i<num_blocks_per_set cfg. valid (sets s ! k ! i) \<longrightarrow> valid (sets s' ! k ! i))"
proof -
  let ?si = "unat (set_index_of cfg a)"
  let ?bs = "sets s ! ?si"
  have si: "?si < length (sets s)" using wf by (rule wf_set_index)
  have len: "length ?bs = num_blocks_per_set cfg" using wf si by (rule wf_set_length)
  have k': "k < length (sets s)" using wf k by (simp add: well_formed_def)
  have upd: ?thesis
    if "sets s' = (sets s)[?si := ?bs[i := b]]" "valid (?bs ! i) \<longrightarrow> valid b" for i b
  proof (cases "k = ?si")
    case True
    have "valid_count ?bs \<le> valid_count (?bs[i := b])"
      using that(2) by (intro valid_count_update) simp
    moreover have "valid (?bs[i := b] ! j)" if "valid (?bs ! j)" "j < num_blocks_per_set cfg" for j
      using that \<open>valid (?bs ! i) \<longrightarrow> valid b\<close> len by (cases "j = i") simp_all
    ultimately show ?thesis using True that(1) si by simp
  next
    case False
    with that(1) show ?thesis by simp
  qed
  from wf show ?thesis
  proof (cases rule: processAccess_cases [where operation = operation and a = a])
    case (Hit i s1)
    with step have e: "sets s' = (sets s)[?si := ?bs[i := (?bs ! i)
         \<lparr>lru_count := global_counter s + 1,
          dirty := dirty (?bs ! i) \<or> (operation \<noteq> CHR ''l'' \<and> \<not> write_through cfg)\<rparr>]]"
      by simp
    show ?thesis by (rule upd [OF e]) simp
  next
    case (Around s1)
    with step show ?thesis by simp
  next
    case (Fill i s1)
    with step have e: "sets s' = (sets s)[?si := ?bs[i := (?bs ! i)
         \<lparr>valid := True, tag := tag_of cfg a, lru_count := global_counter s + 1,
          dirty := operation \<noteq> CHR ''l'' \<and> \<not> write_through cfg\<rparr>]]"
      by simp
    show ?thesis by (rule upd [OF e]) simp
  qed
qed

text \<open>
  C10. From any well-formed state every trace runs to a state in which every slot
  that was valid at the start is valid, and in which no set has fewer valid blocks
  than it had at the start.
\<close>

theorem valid_stays_valid:
  assumes "well_formed cfg s"
  shows "\<exists>s'. run cfg s trace = Some s' \<and>
           (\<forall>k<num_sets cfg. valid_count (sets s ! k) \<le> valid_count (sets s' ! k) \<and>
              (\<forall>i<num_blocks_per_set cfg. valid (sets s ! k ! i) \<longrightarrow> valid (sets s' ! k ! i)))"
  using assms
proof (induction trace arbitrary: s)
  case Nil
  then show ?case by simp
next
  case (Cons x trace)
  obtain operation a where x: "x = (operation, a)" by (cases x)
  from processAccess_wf [OF Cons.prems] obtain s1 where
    s1: "processAccess cfg operation a s = Some s1" "well_formed cfg s1" by blast
  from Cons.IH [OF s1(2)] obtain s' where
    s': "run cfg s1 trace = Some s'"
    "\<forall>k<num_sets cfg. valid_count (sets s1 ! k) \<le> valid_count (sets s' ! k) \<and>
       (\<forall>i<num_blocks_per_set cfg. valid (sets s1 ! k ! i) \<longrightarrow> valid (sets s' ! k ! i))"
    by blast
  have "valid_count (sets s ! k) \<le> valid_count (sets s' ! k) \<and>
       (\<forall>i<num_blocks_per_set cfg. valid (sets s ! k ! i) \<longrightarrow> valid (sets s' ! k ! i))"
    if "k < num_sets cfg" for k
    using processAccess_valid_mono [OF Cons.prems s1(1) that] s'(2) that
    by (meson order_trans)
  moreover have "run cfg s (x # trace) = Some s'"
    using x s1(1) s'(1) by simp
  ultimately show ?case by blast
qed

theorem valid_stays_valid_witness:
  "well_formed (mk_config 1 2 16 True False True) example_full \<and>
   (\<exists>s'. run (mk_config 1 2 16 True False True) example_full
            [(CHR ''l'', 0x30), (CHR ''s'', 0x40)] = Some s' \<and>
      valid_count (sets example_full ! 0) \<le> valid_count (sets s' ! 0) \<and>
      valid (sets s' ! 0 ! 0) \<and> valid (sets s' ! 0 ! 1))"
proof -
  let ?cfg = "mk_config 1 2 16 True False True"
  have h: "well_formed ?cfg example_full" by code_simp
  have n: "num_sets ?cfg = 1" "num_blocks_per_set ?cfg = 2" by (simp_all add: mk_config_def)
  have v: "valid (sets example_full ! 0 ! 0)" "valid (sets example_full ! 0 ! 1)"
    by (simp_all add: example_full_def)
  from valid_stays_valid [OF h, of "[(CHR ''l'', 0x30), (CHR ''s'', 0x40)]"]
  obtain s' where s': "run ?cfg example_full [(CHR ''l'', 0x30), (CHR ''s'', 0x40)] = Some s'"
    "\<forall>k<num_sets ?cfg. valid_count (sets example_full ! k) \<le> valid_count (sets s' ! k) \<and>
       (\<forall>i<num_blocks_per_set ?cfg. valid (sets example_full ! k ! i) \<longrightarrow> valid (sets s' ! k ! i))"
    by blast
  from s'(2) n v have "valid_count (sets example_full ! 0) \<le> valid_count (sets s' ! 0)"
    "valid (sets s' ! 0 ! 0)" "valid (sets s' ! 0 ! 1)"
    by simp_all
  with h s'(1) show ?thesis by blast
qed

section \<open>A miss followed by the same address\<close>

text \<open>
  C2, as amended. On a well-formed cache, when a load misses, or a store misses
  under write-allocate, the access that follows at once to the same address, load
  or store, is a hit. (A miss is an access that raises the count of misses by one,
  a hit one that raises the count of hits by one and leaves the misses.)
\<close>

theorem miss_then_hit:
  assumes wf: "well_formed cfg s"
    and alloc: "operation = CHR ''l'' \<or> write_allocate cfg"
    and first: "processAccess cfg operation a s = Some s1"
    and miss: "misses s1 = misses s + 1"
  shows "\<exists>s2. processAccess cfg operation' a s1 = Some s2 \<and>
           hits s2 = hits s1 + 1 \<and> misses s2 = misses s1"
proof -
  let ?si = "unat (set_index_of cfg a)"
  let ?t = "tag_of cfg a"
  let ?n = "num_blocks_per_set cfg"
  have si: "?si < length (sets s)" using wf by (rule wf_set_index)
  have len: "length (sets s ! ?si) = ?n" using wf si by (rule wf_set_length)
  from wf obtain i where i: "i < ?n" "valid (sets s1 ! ?si ! i)" "tag (sets s1 ! ?si ! i) = ?t"
    and wf1: "well_formed cfg s1"
  proof (cases rule: processAccess_cases [where operation = operation and a = a])
    case (Hit i s')
    with first miss show ?thesis by simp
  next
    case (Around s')
    with alloc show ?thesis by simp
  next
    case (Fill i s')
    from Fill(1,5) first have sets1: "sets s1 = (sets s)[?si := (sets s ! ?si)[i := (sets s ! ?si ! i)
         \<lparr>valid := True, tag := ?t, lru_count := global_counter s + 1,
          dirty := operation \<noteq> CHR ''l'' \<and> \<not> write_through cfg\<rparr>]]" by simp
    have "well_formed cfg s1" using wf sets1 by (rule wf_sets_update)
    moreover have "valid (sets s1 ! ?si ! i)" "tag (sets s1 ! ?si ! i) = ?t"
      using sets1 si len Fill(3) by simp_all
    ultimately show ?thesis using Fill(3) that by blast
  qed
  from wf1 show ?thesis
  proof (cases rule: processAccess_cases [where operation = operation' and a = a])
    case (Hit j s2)
    then show ?thesis by blast
  next
    case (Around s2)
    with i show ?thesis by blast
  next
    case (Fill j s2)
    with i show ?thesis by blast
  qed
qed

theorem miss_then_hit_witness:
  "well_formed (mk_config 1 1 4 True True True) (empty_cache (mk_config 1 1 4 True True True)) \<and>
   (CHR ''l'' = CHR ''l'' \<or> write_allocate (mk_config 1 1 4 True True True)) \<and>
   processAccess (mk_config 1 1 4 True True True) (CHR ''l'') 0x40
       (empty_cache (mk_config 1 1 4 True True True)) = Some example_after_load \<and>
   misses example_after_load = misses (empty_cache (mk_config 1 1 4 True True True)) + 1 \<and>
   (\<exists>s2. processAccess (mk_config 1 1 4 True True True) (CHR ''s'') 0x40 example_after_load = Some s2 \<and>
      hits s2 = hits example_after_load + 1 \<and> misses s2 = misses example_after_load)"
proof -
  let ?cfg = "mk_config 1 1 4 True True True"
  have h1: "well_formed ?cfg (empty_cache ?cfg)" by code_simp
  have h2: "CHR ''l'' = CHR ''l'' \<or> write_allocate ?cfg" by simp
  have h3: "processAccess ?cfg (CHR ''l'') 0x40 (empty_cache ?cfg) = Some example_after_load"
    by code_simp
  have h4: "misses example_after_load = misses (empty_cache ?cfg) + 1" by code_simp
  from miss_then_hit [OF h1 h2 h3 h4, of "CHR ''s''"] h1 h2 h3 h4 show ?thesis
    by blast
qed

text \<open>
  C2, as the specification states it, fails for a store under no-write-allocate: with 4 sets of 1
  block of 16 bytes, the store of \<open>0x00\<close> to the empty cache misses, and the same
  store right after it misses again.
\<close>

theorem repeated_store_write_around:
  "map_option store_misses
     (run (mk_config 4 1 16 False True True) (empty_cache (mk_config 4 1 16 False True True))
        [(CHR ''s'', 0x00)]) = Some 1 \<and>
   map_option store_misses
     (run (mk_config 4 1 16 False True True) (empty_cache (mk_config 4 1 16 False True True))
        [(CHR ''s'', 0x00), (CHR ''s'', 0x00)]) = Some 2 \<and>
   map_option store_hits
     (run (mk_config 4 1 16 False True True) (empty_cache (mk_config 4 1 16 False True True))
        [(CHR ''s'', 0x00), (CHR ''s'', 0x00)]) = Some 0"
  by code_simp

section \<open>FIFO eviction\<close>

text \<open>
  C1. With one set of two blocks and the FIFO policy, after the loads of \<open>0x00\<close>
  and \<open>0x10\<close> evictBlock's choice is slot 0, the block installed first; after one
  more load of \<open>0x00\<close>, a hit, the choice is slot 1. The loads of \<open>0x20\<close> and
  \<open>0x00\<close> that follow then leave the tags 0 and 2 in the set, with two hits and
  three misses: the block installed first was not the one evicted.
\<close>

theorem fifo_victim_follows_hits:
  "map_option (\<lambda>s. choose_victim (mk_config 1 2 16 True True False) (sets s ! 0))
     (run (mk_config 1 2 16 True True False) (empty_cache (mk_config 1 2 16 True True False))
        [(CHR ''l'', 0x00), (CHR ''l'', 0x10)]) = Some (Some 0) \<and>
   map_option (\<lambda>s. choose_victim (mk_config 1 2 16 True True False) (sets s ! 0))
     (run (mk_config 1 2 16 True True False) (empty_cache (mk_config 1 2 16 True True False))
        [(CHR ''l'', 0x00), (CHR ''l'', 0x10), (CHR ''l'', 0x00)]) = Some (Some 1) \<and>
   map_option (\<lambda>s. (map tag (sets s ! 0), load_hits s, load_misses s))
     (run (mk_config 1 2 16 True True False) (empty_cache (mk_config 1 2 16 True True False))
        [(CHR ''l'', 0x00), (CHR ''l'', 0x10), (CHR ''l'', 0x00), (CHR ''l'', 0x20),
         (CHR ''l'', 0x00)]) = Some ([0, 2], 2, 3)"
  by code_simp

end
